theory Spec2Isabelle
  imports Main "HOL-Library.Word" "HOL-Library.Sublist" "HOL-Library.List_Lexorder"
    "HOL-Library.Log_Nat"
begin

section \<open>Strings of the source language\<close>

text \<open>
  A JavaScript string is a sequence of UTF-16 code units. The literals of \<^verbatim>\<open>main.js\<close>
  outside ASCII are written as their code units; \<open>js\<close> embeds an ASCII literal.
\<close>

type_synonym jschar = "16 word"
type_synonym jsstring = "jschar list"

definition js :: "string \<Rightarrow> jsstring" where
  "js s = map (\<lambda>c. of_char c) s"

definition dquote :: jschar where "dquote = 0x22"
definition comma :: jschar where "comma = 0x2C"
definition newline :: jschar where "newline = 0x0A"
definition creturn :: jschar where "creturn = 0x0D"

text \<open>
  The characters that \<^verbatim>\<open>String.prototype.trim\<close> strips and that \<^verbatim>\<open>\s\<close> matches in a
  regular expression: the WhiteSpace and LineTerminator code points of ECMAScript.
\<close>

definition isSpace :: "jschar \<Rightarrow> bool" where
  "isSpace c =
     (c \<in> {0x09, 0x0A, 0x0B, 0x0C, 0x0D, 0x20, 0xA0, 0x1680,
            0x2028, 0x2029, 0x202F, 0x205F, 0x3000, 0xFEFF}
      \<or> (0x2000 \<le> c \<and> c \<le> 0x200A))"

definition trim :: "jsstring \<Rightarrow> jsstring" where
  "trim s = rev (dropWhile isSpace (rev (dropWhile isSpace s)))"

text \<open>\<^verbatim>\<open>xs.join(sep)\<close> on an array of strings.\<close>

fun join :: "jsstring \<Rightarrow> jsstring list \<Rightarrow> jsstring" where
  "join sep [] = []"
| "join sep [x] = x"
| "join sep (x # y # ys) = x @ sep @ join sep (y # ys)"

section \<open>CSV: escaping and parsing\<close>

text \<open>
  \<^verbatim>\<open>escapeCsvField\<close>: a value that contains a double quote, a comma or a newline is
  wrapped in double quotes with every inner double quote doubled; any other value is
  emitted as it is.
\<close>

definition needsQuoting :: "jsstring \<Rightarrow> bool" where
  "needsQuoting v = (\<exists>c \<in> set v. c = dquote \<or> c = comma \<or> c = newline)"

definition doubleQuotes :: "jsstring \<Rightarrow> jsstring" where
  "doubleQuotes v = concat (map (\<lambda>c. if c = dquote then [dquote, dquote] else [c]) v)"

definition escapeCsvField :: "jsstring \<Rightarrow> jsstring" where
  "escapeCsvField v =
     (if needsQuoting v then [dquote] @ doubleQuotes v @ [dquote] else v)"

text \<open>
  \<^verbatim>\<open>splitCsvLine\<close>: the \<^verbatim>\<open>for\<close> loop over the line, with the loop variables
  \<open>cells\<close>, \<open>current\<close> and \<open>inQuotes\<close> as arguments and the part of the line from index
  \<open>i\<close> on as the last one. \<^verbatim>\<open>line[i + 1]\<close> past the end is \<^verbatim>\<open>undefined\<close>, which is
  not a double quote.
\<close>

definition nextIsQuote :: "jsstring \<Rightarrow> bool" where
  "nextIsQuote rest = (case rest of [] \<Rightarrow> False | d # _ \<Rightarrow> d = dquote)"

fun splitCsvLoop :: "jsstring list \<Rightarrow> jsstring \<Rightarrow> bool \<Rightarrow> jsstring \<Rightarrow> jsstring list" where
  "splitCsvLoop cells current inQuotes [] = cells @ [current]"
| "splitCsvLoop cells current inQuotes (c # rest) =
     (if c = dquote then
        (if inQuotes \<and> nextIsQuote rest
         then splitCsvLoop cells (current @ [dquote]) inQuotes (tl rest)
         else splitCsvLoop cells current (\<not> inQuotes) rest)
      else if c = comma \<and> \<not> inQuotes then splitCsvLoop (cells @ [current]) [] inQuotes rest
      else splitCsvLoop cells (current @ [c]) inQuotes rest)"

definition splitCsvLine :: "jsstring \<Rightarrow> jsstring list" where
  "splitCsvLine line = splitCsvLoop [] [] False line"

text \<open>
  \<^verbatim>\<open>text.split(/\r?\n/)\<close>: every newline ends a piece, and a carriage return right
  before it belongs to the separator. The empty text gives one empty piece.
\<close>

fun splitLines :: "jsstring \<Rightarrow> jsstring list" where
  "splitLines [] = [[]]"
| "splitLines (c # cs) =
     (if c = newline then [] # splitLines cs
      else if c = creturn \<and> (case cs of [] \<Rightarrow> False | d # _ \<Rightarrow> d = newline)
      then [] # splitLines (tl cs)
      else (case splitLines cs of [] \<Rightarrow> [[c]] | l # ls \<Rightarrow> (c # l) # ls))"

text \<open>\<^verbatim>\<open>parseCsv\<close>: split into lines, trim each, drop the empty ones, split each line.\<close>

definition parseCsv :: "jsstring \<Rightarrow> jsstring list list" where
  "parseCsv text = map splitCsvLine (filter (\<lambda>l. l \<noteq> []) (map trim (splitLines text)))"

section \<open>Step normalization\<close>

text \<open>
  \<^verbatim>\<open>normalizeSteps\<close> first replaces every match of \<^verbatim>\<open>/<br\s*\/?>/gi\<close> by a newline.
  A match is \<^verbatim>\<open><\<close>, then \<^verbatim>\<open>b\<close> and \<^verbatim>\<open>r\<close> in either case, then white space, then
  at most one \<^verbatim>\<open>/\<close>, then \<^verbatim>\<open>>\<close>. White space, \<^verbatim>\<open>/\<close> and \<^verbatim>\<open>>\<close> exclude each other, so
  backtracking finds no match that the greedy one misses. \<open>matchBr\<close> gives the text
  after a match at the start of its argument; \<open>replaceBr\<close> scans from the left and
  resumes after each match, as a global replace does.
\<close>

definition isBr :: "jschar \<Rightarrow> jschar \<Rightarrow> jschar \<Rightarrow> bool" where
  "isBr a b c = (a = 0x3C \<and> (b = 0x62 \<or> b = 0x42) \<and> (c = 0x72 \<or> c = 0x52))"

definition matchBrTail :: "jsstring \<Rightarrow> jsstring option" where
  "matchBrTail rest =
     (let r1 = dropWhile isSpace rest;
          r2 = (case r1 of [] \<Rightarrow> r1 | d # r \<Rightarrow> if d = 0x2F then r else r1)
      in case r2 of [] \<Rightarrow> None | e # r \<Rightarrow> if e = 0x3E then Some r else None)"

fun matchBr :: "jsstring \<Rightarrow> jsstring option" where
  "matchBr (a # b # c # rest) = (if isBr a b c then matchBrTail rest else None)"
| "matchBr _ = None"

function replaceBr :: "jsstring \<Rightarrow> jsstring" where
  "replaceBr [] = []"
| "replaceBr (c # cs) =
     (case matchBr (c # cs) of
        Some rest \<Rightarrow> newline # replaceBr rest
      | None \<Rightarrow> c # replaceBr cs)"
  by pat_completeness auto
termination
proof (relation "measure length")
  show "wf (measure length)" by simp
next
  fix c :: jschar and cs rest :: jsstring
  assume m: "matchBr (c # cs) = Some rest"
  have t: "\<And>r s. matchBrTail r = Some s \<Longrightarrow> length s \<le> length r"
  proof -
    fix r s :: jsstring
    assume a: "matchBrTail r = Some s"
    have "length (dropWhile isSpace r) \<le> length r" by (rule length_dropWhile_le)
    then show "length s \<le> length r"
      using a by (auto simp: matchBrTail_def Let_def split: list.splits if_splits)
  qed
  from m obtain b d r where "cs = b # d # r" "matchBrTail r = Some rest"
    by (cases "c # cs" rule: matchBr.cases) (auto split: if_splits)
  then show "(rest, c # cs) \<in> measure length"
    using t [of r rest] by simp
next
  fix c :: jschar and cs :: jsstring
  show "(cs, c # cs) \<in> measure length" by simp
qed

text \<open>
  \<^verbatim>\<open>split(/\n+/)\<close>: a run of newlines is one separator; \<open>inRun\<close> says that the
  character before was a newline. The empty text gives one empty piece.
\<close>

fun splitRuns :: "bool \<Rightarrow> jsstring \<Rightarrow> jsstring list" where
  "splitRuns inRun [] = [[]]"
| "splitRuns inRun (c # cs) =
     (if c = newline then (if inRun then splitRuns True cs else [] # splitRuns True cs)
      else (case splitRuns False cs of [] \<Rightarrow> [[c]] | l # ls \<Rightarrow> (c # l) # ls))"

text \<open>\<^verbatim>\<open>normalizeSteps\<close>: replace, split, trim every piece, drop the empty ones.\<close>

definition normalizeSteps :: "jsstring \<Rightarrow> jsstring list" where
  "normalizeSteps raw = filter (\<lambda>s. s \<noteq> []) (map trim (splitRuns False (replaceBr raw)))"

section \<open>Test cases and the application state\<close>

text \<open>
  The five entries of \<^verbatim>\<open>STATUS_OPTIONS\<close> (not run, passed, failed, blocked, skipped), the
  marker that identifies a header row, and two notices shown to the user.
\<close>

definition notRun :: jsstring where "notRun = [0x672A, 0x6267, 0x884C]"
definition passed :: jsstring where "passed = [0x901A, 0x8FC7]"
definition failed :: jsstring where "failed = [0x5931, 0x8D25]"
definition blocked :: jsstring where "blocked = [0x963B, 0x585E]"
definition skipped :: jsstring where "skipped = [0x8DF3, 0x8FC7]"

definition STATUS_OPTIONS :: "jsstring list" where
  "STATUS_OPTIONS = [notRun, passed, failed, blocked, skipped]"

definition headerMarker :: jsstring where "headerMarker = [0x6D4B, 0x8BD5, 0x7528, 0x4F8B]"

definition emptyFileNotice :: jsstring where
  "emptyFileNotice = [0x6587, 0x4EF6, 0x5185, 0x5BB9, 0x4E3A, 0x7A7A]"

definition importHint :: jsstring where
  "importHint = [0x8BF7, 0x5BFC, 0x5165, 0x6D4B, 0x8BD5, 0x7528, 0x4F8B, 0x6587, 0x4EF6, 0xFF08,
     0x43, 0x53, 0x56, 0x20, 0x6216, 0x20, 0x58, 0x4C, 0x53, 0x58, 0xFF09, 0x5F00, 0x59CB,
     0x4F7F, 0x7528]"

text \<open>
  A test case as \<^verbatim>\<open>applyRows\<close> builds it. The status is a string, as in the source; an
  absent \<^verbatim>\<open>updatedAt\<close> is the empty string. The fields \<^verbatim>\<open>id\<close> and \<^verbatim>\<open>module\<close> carry a
  prime, since HOL has constants of these names.
\<close>

record testcase =
  id' :: jsstring
  module' :: jsstring
  scenario :: jsstring
  precondition :: jsstring
  steps :: "jsstring list"
  expected :: jsstring
  priority :: jsstring
  remark :: jsstring
  status :: jsstring
  actual :: jsstring
  updatedAt :: jsstring

text \<open>
  The item stored under \<^verbatim>\<open>STORAGE_KEY\<close> is represented by what \<^verbatim>\<open>JSON.parse\<close> makes of
  its text: \<open>NoItem\<close> when \<^verbatim>\<open>getItem\<close> gives \<^verbatim>\<open>null\<close> or the empty string, otherwise
  either the error that \<^verbatim>\<open>JSON.parse\<close> throws or the value it returns. Of a returned
  value only the three properties that \<^verbatim>\<open>restoreFromLocal\<close> reads matter: each is
  \<open>None\<close> when it is absent or falsy and has the type \<^verbatim>\<open>persist\<close> writes when it is
  there. \<open>JsonNull\<close> is the value \<^verbatim>\<open>null\<close>, on which a property read throws.
\<close>

datatype jserror = SyntaxError | TypeError

datatype parsed =
    JsonNull
  | JsonData "testcase list option" "jsstring option" "jsstring option"

datatype item = NoItem | Item "jserror + parsed"

text \<open>
  The fields of the component that the modelled methods read or write, together with
  the stored item. \<open>initial\<close> is the component as it is declared, before \<^verbatim>\<open>init\<close>.
\<close>

record app =
  cases :: "testcase list"
  modules :: "jsstring list"
  sourceFile :: jsstring
  message :: jsstring
  lastSavedAt :: "jsstring option"
  dirty :: bool
  localStorage :: item

definition initial :: "item \<Rightarrow> app" where
  "initial stored = \<lparr>cases = [], modules = [], sourceFile = [], message = [],
     lastSavedAt = None, dirty = False, localStorage = stored\<rparr>"

section \<open>Import and reconciliation\<close>

text \<open>
  \<^verbatim>\<open>s.includes(sub)\<close>, and \<^verbatim>\<open>row[i] || ''\<close> for a row of strings: a missing cell reads
  as the empty string.
\<close>

definition includesStr :: "jsstring \<Rightarrow> jsstring \<Rightarrow> bool" where
  "includesStr s sub = (\<exists>t \<in> set (suffixes s). prefix sub t)"

definition cellAt :: "jsstring list \<Rightarrow> nat \<Rightarrow> jsstring" where
  "cellAt row i = (if i < length row then row ! i else [])"

text \<open>
  \<^verbatim>\<open>toast\<close> sets the message (the timer that clears it two seconds later is left out).
  \<^verbatim>\<open>refreshLookups\<close> collects the distinct non-empty module names in code-unit order.
  \<^verbatim>\<open>persist\<close> writes the snapshot, whose text parses back to the same three values, and
  stamps the time \<open>now\<close> it reads from the clock.
\<close>

definition toast :: "jsstring \<Rightarrow> app \<Rightarrow> app" where
  "toast msg st = st\<lparr>message := msg\<rparr>"

definition refreshLookups :: "app \<Rightarrow> app" where
  "refreshLookups st =
     st\<lparr>modules := sort (remdups (filter (\<lambda>m. m \<noteq> []) (map module' (cases st))))\<rparr>"

definition persist :: "jsstring \<Rightarrow> app \<Rightarrow> app" where
  "persist now st =
     st\<lparr>localStorage := Item (Inr (JsonData (Some (cases st)) (Some (sourceFile st)) (Some now))),
        lastSavedAt := Some now,
        dirty := False\<rparr>"

definition markDirty :: "jsstring \<Rightarrow> app \<Rightarrow> app" where
  "markDirty now st = persist now (st\<lparr>dirty := True\<rparr>)"

text \<open>
  \<^verbatim>\<open>applyRows\<close>. \<open>savedMap\<close> is the \<^verbatim>\<open>reduce\<close> over the cases in memory: a later case
  overwrites an earlier one with the same id. \<open>startIndex\<close> skips the first row when its
  first cell contains the header marker. \<open>mergeRow\<close> is the function mapped over the
  remaining rows; \<^verbatim>\<open>saved.status || ...\<close> falls back to the default also when the saved
  status is the empty string. An import with no rows only shows a notice.

  The lookup object of the source also answers for the property names it inherits (such
  as \<^verbatim>\<open>constructor\<close>), with values that have no \<^verbatim>\<open>status\<close>, \<^verbatim>\<open>actual\<close> or
  \<^verbatim>\<open>updatedAt\<close>: a row with such an id gets the defaults, as it does here where the map
  has no entry for it. The rows are vectors of strings, as \<^verbatim>\<open>parseCsv\<close> gives them.
\<close>

definition savedMap :: "testcase list \<Rightarrow> (jsstring \<rightharpoonup> testcase)" where
  "savedMap cs = fold (\<lambda>item acc. acc(id' item \<mapsto> item)) cs Map.empty"

definition startIndex :: "jsstring list list \<Rightarrow> nat" where
  "startIndex rows =
     (case rows of
        (c # _) # _ \<Rightarrow> if c \<noteq> [] \<and> includesStr c headerMarker then 1 else 0
      | _ \<Rightarrow> 0)"

definition mergeRow :: "(jsstring \<rightharpoonup> testcase) \<Rightarrow> jsstring list \<Rightarrow> testcase" where
  "mergeRow saved row =
     \<lparr>id' = cellAt row 0,
      module' = cellAt row 1,
      scenario = cellAt row 2,
      precondition = cellAt row 3,
      steps = normalizeSteps (cellAt row 4),
      expected = cellAt row 5,
      priority = cellAt row 6,
      remark = cellAt row 7,
      status = (case saved (cellAt row 0) of
                  None \<Rightarrow> notRun
                | Some s \<Rightarrow> if status s = [] then notRun else status s),
      actual = (case saved (cellAt row 0) of None \<Rightarrow> [] | Some s \<Rightarrow> actual s),
      updatedAt = (case saved (cellAt row 0) of None \<Rightarrow> [] | Some s \<Rightarrow> updatedAt s)\<rparr>"

definition applyRows :: "jsstring list list \<Rightarrow> jsstring \<Rightarrow> jsstring \<Rightarrow> app \<Rightarrow> app" where
  "applyRows rows filename now st =
     (if rows = [] then toast emptyFileNotice st
      else persist now
        ((refreshLookups
          (st\<lparr>cases := map (mergeRow (savedMap (cases st))) (drop (startIndex rows) rows),
              sourceFile := filename\<rparr>))\<lparr>dirty := False\<rparr>))"

definition applyCsv :: "jsstring \<Rightarrow> jsstring \<Rightarrow> jsstring \<Rightarrow> app \<Rightarrow> app" where
  "applyCsv text filename now st = applyRows (parseCsv text) filename now st"

section \<open>Status edits, saving and restoring\<close>

text \<open>
  \<^verbatim>\<open>setStatus\<close> writes the status it is given into the case at position \<open>i\<close> of the
  collection (the source gets the object itself), stamps it with the time \<open>now\<close> and
  saves at the time \<open>savedAt\<close>.
\<close>

definition setStatus :: "nat \<Rightarrow> jsstring \<Rightarrow> jsstring \<Rightarrow> jsstring \<Rightarrow> app \<Rightarrow> app" where
  "setStatus i newStatus now savedAt st =
     markDirty savedAt
       (st\<lparr>cases := (if i < length (cases st)
                      then (cases st)[i := (cases st ! i)\<lparr>status := newStatus, updatedAt := now\<rparr>]
                      else cases st)\<rparr>)"

text \<open>
  \<^verbatim>\<open>restoreFromLocal\<close>. \<open>tryRestore\<close> is the body of the \<^verbatim>\<open>try\<close> block: it fails with
  the error of \<^verbatim>\<open>JSON.parse\<close>, or with a type error when the parsed value is \<^verbatim>\<open>null\<close>,
  before anything is assigned. The \<^verbatim>\<open>catch\<close> logs the error and leaves the component
  as it was.
\<close>

definition tryRestore :: "jserror + parsed \<Rightarrow> app \<Rightarrow> jserror + app" where
  "tryRestore outcome st =
     (case outcome of
        Inl e \<Rightarrow> Inl e
      | Inr JsonNull \<Rightarrow> Inl TypeError
      | Inr (JsonData c f t) \<Rightarrow>
          Inr (st\<lparr>cases := (case c of None \<Rightarrow> [] | Some cs \<Rightarrow> cs),
                  sourceFile := (case f of None \<Rightarrow> [] | Some n \<Rightarrow> n),
                  lastSavedAt := (case t of None \<Rightarrow> None
                                  | Some ts \<Rightarrow> if ts = [] then None else Some ts)\<rparr>))"

definition restoreFromLocal :: "app \<Rightarrow> app" where
  "restoreFromLocal st =
     (case localStorage st of
        NoItem \<Rightarrow> st
      | Item outcome \<Rightarrow> (case tryRestore outcome st of Inl e \<Rightarrow> st | Inr st' \<Rightarrow> st'))"

definition init :: "app \<Rightarrow> app" where
  "init st =
     (let st' = restoreFromLocal st
      in if cases st' = [] then st'\<lparr>message := importHint\<rparr> else refreshLookups st')"

section \<open>Aggregator\<close>

text \<open>
  The pass rate is computed in double precision:
  \<^verbatim>\<open>Math.round((passed / total) * 100)\<close>. \<open>toDouble\<close> rounds a rational to the nearest
  number with a 53-bit significand, ties to even, which is what each of the two
  operations does to its exact result; the counts themselves are integers below
  \<open>2^53\<close> and exact. \<open>binade x\<close> is the exponent \<open>e\<close> with \<open>2^e \<le> x < 2^(e+1)\<close>. The
  exponent range of the format is not modelled: a quotient of two array lengths and its
  hundredfold stay far inside it. \<^verbatim>\<open>Math.round\<close> rounds to the nearest integer, ties
  upwards.
\<close>

definition pow2 :: "int \<Rightarrow> rat" where
  "pow2 e = (if 0 \<le> e then 2 ^ nat e else 1 / 2 ^ nat (- e))"

definition binade :: "rat \<Rightarrow> int" where
  "binade x = (if 1 \<le> x then bitlen \<lfloor>x\<rfloor> - 1 else - bitlen (\<lceil>1 / x\<rceil> - 1))"

definition roundTiesToEven :: "rat \<Rightarrow> int" where
  "roundTiesToEven y =
     (let f = \<lfloor>y\<rfloor>; d = y - of_int f
      in if d < 1 / 2 then f
         else if 1 / 2 < d then f + 1
         else if even f then f else f + 1)"

definition toDouble :: "rat \<Rightarrow> rat" where
  "toDouble x =
     (if x = 0 then 0
      else let u = pow2 (binade \<bar>x\<bar> - 52)
           in sgn x * (u * of_int (roundTiesToEven (\<bar>x\<bar> / u))))"

definition mathRound :: "rat \<Rightarrow> int" where
  "mathRound x = \<lfloor>x + 1 / 2\<rfloor>"

text \<open>
  \<^verbatim>\<open>summarize\<close>. Both counters start with their keys at zero. The \<^verbatim>\<open>forEach\<close> adds one
  to the status counter when the status is one of its keys and leaves it alone
  otherwise (a status that names an inherited property changes no counter of the five
  either); a priority outside \<^verbatim>\<open>PRIORITY_ORDER\<close> counts under the key for the others.
  \<open>getCount\<close> is \<^verbatim>\<open>counts[k] || 0\<close>. The priorities are high, medium and low.
\<close>

definition high :: jsstring where "high = [0x9AD8]"
definition medium :: jsstring where "medium = [0x4E2D]"
definition low :: jsstring where "low = [0x4F4E]"
definition other :: jsstring where "other = [0x5176, 0x4ED6]"

definition PRIORITY_ORDER :: "jsstring list" where
  "PRIORITY_ORDER = [high, medium, low]"

definition getCount :: "(jsstring \<rightharpoonup> nat) \<Rightarrow> jsstring \<Rightarrow> nat" where
  "getCount counts k = (case counts k of None \<Rightarrow> 0 | Some n \<Rightarrow> n)"

definition increment :: "(jsstring \<rightharpoonup> nat) \<Rightarrow> jsstring \<Rightarrow> (jsstring \<rightharpoonup> nat)" where
  "increment counts k = (case counts k of None \<Rightarrow> counts | Some n \<Rightarrow> counts(k \<mapsto> n + 1))"

definition countCase ::
  "testcase \<Rightarrow> (jsstring \<rightharpoonup> nat) \<times> (jsstring \<rightharpoonup> nat)
     \<Rightarrow> (jsstring \<rightharpoonup> nat) \<times> (jsstring \<rightharpoonup> nat)" where
  "countCase c acc =
     (case acc of (statusCount, priorityCount) \<Rightarrow>
        (increment statusCount (status c),
         if priority c \<in> set PRIORITY_ORDER then increment priorityCount (priority c)
         else increment priorityCount other))"

record summary =
  total' :: nat
  executed :: int
  statusCount :: "jsstring \<rightharpoonup> nat"
  priorityCount :: "jsstring \<rightharpoonup> nat"
  passRate :: int

definition summarize :: "testcase list \<Rightarrow> summary" where
  "summarize cs =
     (let counts = fold countCase cs
            (fold (\<lambda>cur acc. acc(cur \<mapsto> 0)) STATUS_OPTIONS Map.empty,
             fold (\<lambda>cur acc. acc(cur \<mapsto> 0)) PRIORITY_ORDER [other \<mapsto> 0]);
          n = length cs
      in \<lparr>total' = n,
          executed = int n - int (getCount (fst counts) notRun),
          statusCount = fst counts,
          priorityCount = snd counts,
          passRate = (if n \<noteq> 0
                      then mathRound (toDouble
                        (toDouble (of_nat (getCount (fst counts) passed) / of_nat n) * 100))
                      else 0)\<rparr>)"

section \<open>Report\<close>



















section \<open>Specification-side notions\<close>

text \<open>
  The parser's contract speaks of detected delimiters and of what lies between them.
  \<open>detectDelimiters\<close> reads a line once and marks every comma outside quotes as a
  delimiter and every character that is kept as content; the quote characters that open
  or close a quoted part, or double a quote inside one, are syntax and leave no token.
  \<open>cellsBetween\<close> cuts the token sequence at the delimiters.
\<close>

datatype token = Delim | Content jschar

fun detectDelimiters :: "bool \<Rightarrow> jsstring \<Rightarrow> token list" where
  "detectDelimiters q [] = []"
| "detectDelimiters q (c # rest) =
     (if c = dquote then
        (if q \<and> nextIsQuote rest then Content dquote # detectDelimiters q (tl rest)
         else detectDelimiters (\<not> q) rest)
      else if c = comma \<and> \<not> q then Delim # detectDelimiters q rest
      else Content c # detectDelimiters q rest)"

fun cellsBetween :: "token list \<Rightarrow> jsstring list" where
  "cellsBetween [] = [[]]"
| "cellsBetween (Delim # ts) = [] # cellsBetween ts"
| "cellsBetween (Content c # ts) =
     (case cellsBetween ts of [] \<Rightarrow> [[c]] | cell # cells \<Rightarrow> (c # cell) # cells)"

text \<open>The character a token stands for in the line without its quote syntax.\<close>

fun charOf :: "token \<Rightarrow> jschar" where
  "charOf Delim = comma"
| "charOf (Content c) = c"

text \<open>A string that does not start, or does not end, with a white-space character.\<close>

definition noLeadingSpace :: "jsstring \<Rightarrow> bool" where
  "noLeadingSpace s = (case s of [] \<Rightarrow> True | c # _ \<Rightarrow> \<not> isSpace c)"

definition noTrailingSpace :: "jsstring \<Rightarrow> bool" where
  "noTrailingSpace s = noLeadingSpace (rev s)"

text \<open>
  An explicit line-break marker is a text that the marker pattern matches as a whole. A
  phrase is a piece of step text between markers: it holds no newline, it is not blank,
  and nowhere in it does \<^verbatim>\<open><br\<close> (in either case) start.
\<close>

fun containsBr :: "jsstring \<Rightarrow> bool" where
  "containsBr (a # b # c # rest) = (isBr a b c \<or> containsBr (b # c # rest))"
| "containsBr _ = False"

definition isMarker :: "jsstring \<Rightarrow> bool" where
  "isMarker m = (matchBr m = Some [])"

definition phrase :: "jsstring \<Rightarrow> bool" where
  "phrase s = (newline \<notin> set s \<and> trim s \<noteq> [] \<and> \<not> containsBr s)"

text \<open>
  The prior case that a row matches is the last case in memory with the row's id;
  \<open>importedRows\<close> are the rows that become cases, the header row apart.
  \<open>exampleCase\<close> builds a case for the examples from its id, status, actual result and
  time stamp.
\<close>

definition priorCase :: "testcase list \<Rightarrow> jsstring \<Rightarrow> testcase option" where
  "priorCase cs k = find (\<lambda>c. id' c = k) (rev cs)"


definition exampleCase :: "jsstring \<Rightarrow> jsstring \<Rightarrow> jsstring \<Rightarrow> jsstring \<Rightarrow> testcase" where
  "exampleCase k s a t =
     \<lparr>id' = k, module' = [], scenario = [], precondition = [], steps = [], expected = [],
      priority = [], remark = [], status = s, actual = a, updatedAt = t\<rparr>"

text \<open>
  Sequences of operations: an import of rows or of CSV text, a status edit, a save, a
  restore. The collection satisfies the status invariant when every status is one of the
  five options; so does the stored item when the cases it holds do. An edit is valid when
  the status it passes is one of the five.
\<close>

datatype action =
    ApplyRows "jsstring list list" jsstring jsstring
  | ApplyCsv jsstring jsstring jsstring
  | SetStatus nat jsstring jsstring jsstring
  | Persist jsstring
  | RestoreFromLocal

fun perform :: "action \<Rightarrow> app \<Rightarrow> app" where
  "perform (ApplyRows rows filename now) st = applyRows rows filename now st"
| "perform (ApplyCsv text filename now) st = applyCsv text filename now st"
| "perform (SetStatus i newStatus now savedAt) st = setStatus i newStatus now savedAt st"
| "perform (Persist now) st = persist now st"
| "perform RestoreFromLocal st = restoreFromLocal st"

definition run :: "action list \<Rightarrow> app \<Rightarrow> app" where
  "run acts st = fold perform acts st"

definition statusesValid :: "testcase list \<Rightarrow> bool" where
  "statusesValid cs = (\<forall>c \<in> set cs. status c \<in> set STATUS_OPTIONS)"

definition storedValid :: "item \<Rightarrow> bool" where
  "storedValid stored =
     (case stored of
        Item (Inr (JsonData (Some cs) f t)) \<Rightarrow> statusesValid cs
      | _ \<Rightarrow> True)"

fun editValid :: "action \<Rightarrow> bool" where
  "editValid (SetStatus i newStatus now savedAt) = (newStatus \<in> set STATUS_OPTIONS)"
| "editValid _ = True"

definition invariant :: "app \<Rightarrow> bool" where
  "invariant st = (statusesValid (cases st) \<and> storedValid (localStorage st))"

text \<open>
  The three blocks of the report, stated from the collection: the summary with its
  counts taken directly from the cases, the abnormal cases under their header (failed
  first, then blocked), and the listing of all cases under its header.
\<close>

definition countStatus :: "jsstring \<Rightarrow> testcase list \<Rightarrow> nat" where
  "countStatus s cs = length (filter (\<lambda>c. status c = s) cs)"





section \<open>Properties of the CSV functions\<close>

lemma splitLines_no_newline:
  "newline \<notin> set s \<Longrightarrow> splitLines s = [s]"
  by (induction s) (auto split: list.splits)

lemma dquote_not_space: "\<not> isSpace dquote"
  by (simp add: isSpace_def dquote_def)

lemma trim_quoted: "trim (dquote # body @ [dquote]) = dquote # body @ [dquote]"
  by (simp add: trim_def dquote_not_space)

lemma splitCsvLoop_quoted_body:
  "splitCsvLoop cells cur True (doubleQuotes v @ [dquote]) = cells @ [cur @ v]"
  by (induction v arbitrary: cur) (auto simp: doubleQuotes_def nextIsQuote_def)

text \<open>
  Fields that need quoting and hold no newline come back from the parser as they were.
\<close>

lemma escaped_field_roundtrip_one_line:
  assumes "needsQuoting v" and "newline \<notin> set v"
  shows "parseCsv (escapeCsvField v) = [[v]]"
proof -
  have nl: "newline \<notin> set (dquote # doubleQuotes v @ [dquote])"
    using assms(2) by (auto simp: doubleQuotes_def dquote_def newline_def split: if_splits)
  have "splitCsvLine (dquote # doubleQuotes v @ [dquote]) = [v]"
    using splitCsvLoop_quoted_body [of "[]" "[]" v]
    by (simp add: splitCsvLine_def nextIsQuote_def)
  then show ?thesis
    using assms(1) splitLines_no_newline [OF nl]
    by (simp add: parseCsv_def escapeCsvField_def trim_quoted)
qed

text \<open>
  C1. A field with a comma, a double quote or a newline is quoted on output and should
  parse back to itself. The parser cuts the text at every newline before it looks at the
  quotes, so the quoted field \<^verbatim>\<open>a\nb\<close> comes back as two rows of one cell each.
\<close>

theorem C1_newline_field_is_split:
  "needsQuoting (js ''a\<newline>b'')
   \<and> escapeCsvField (js ''a\<newline>b'') = js ''\"a\<newline>b\"''
   \<and> parseCsv (escapeCsvField (js ''a\<newline>b'')) = [[js ''a''], [js ''b'']]
   \<and> parseCsv (escapeCsvField (js ''a\<newline>b'')) \<noteq> [[js ''a\<newline>b'']]"
  by (simp add: parseCsv_def escapeCsvField_def needsQuoting_def doubleQuotes_def trim_def
      splitCsvLine_def nextIsQuote_def isSpace_def js_def dquote_def comma_def newline_def
      creturn_def)

subsection \<open>Cells and detected delimiters\<close>

lemma cellsBetween_nonempty: "cellsBetween ts \<noteq> []"
  by (induction ts rule: cellsBetween.induct) (auto split: list.splits)

lemma cellsBetween_prepend:
  "cellsBetween (map Content cur @ ts) = (cur @ hd (cellsBetween ts)) # tl (cellsBetween ts)"
  using cellsBetween_nonempty [of ts]
  by (induction cur) (auto split: list.splits)

lemma splitCsvLoop_cellsBetween:
  "splitCsvLoop cells cur q line
     = cells @ (cur @ hd (cellsBetween (detectDelimiters q line)))
         # tl (cellsBetween (detectDelimiters q line))"
proof (induction cells cur q line rule: splitCsvLoop.induct)
  case (1 cells current inQuotes)
  then show ?case by simp
next
  case (2 cells current inQuotes c rest)
  then show ?case
    using cellsBetween_nonempty [of "detectDelimiters inQuotes rest"]
      cellsBetween_nonempty [of "detectDelimiters inQuotes (tl rest)"]
    by (auto split: list.splits)
qed

lemma splitCsvLine_cellsBetween:
  "splitCsvLine line = cellsBetween (detectDelimiters False line)"
  using cellsBetween_nonempty [of "detectDelimiters False line"]
  by (simp add: splitCsvLine_def splitCsvLoop_cellsBetween)

lemma splitCsvLine_nonempty: "splitCsvLine line \<noteq> []"
  by (simp add: splitCsvLine_cellsBetween cellsBetween_nonempty)

lemma join_head: "join sep ((c # x) # xs) = c # join sep (x # xs)"
  by (cases xs) simp_all

lemma join_cellsBetween: "join [comma] (cellsBetween ts) = map charOf ts"
proof (induction ts rule: cellsBetween.induct)
  case 1
  then show ?case by simp
next
  case (2 ts)
  then show ?case
    using cellsBetween_nonempty [of ts] by (cases "cellsBetween ts") simp_all
next
  case (3 c ts)
  then show ?case
    using cellsBetween_nonempty [of ts] by (cases "cellsBetween ts") (simp_all add: join_head)
qed

lemma detectDelimiters_unquoted:
  "dquote \<notin> set line \<Longrightarrow>
   detectDelimiters False line = map (\<lambda>c. if c = comma then Delim else Content c) line"
  by (induction line) auto

lemma cells_hold_content:
  "\<Union> (set ` set (cellsBetween ts)) = {c. Content c \<in> set ts}"
proof (induction ts rule: cellsBetween.induct)
  case 1
  then show ?case by simp
next
  case (2 ts)
  then show ?case by auto
next
  case (3 d ts)
  then show ?case
    using cellsBetween_nonempty [of ts]
    by (cases "cellsBetween ts") auto
qed

lemma splitCsvLine_unquoted:
  assumes "dquote \<notin> set line"
  shows "join [comma] (splitCsvLine line) = line"
    and "\<forall>cell \<in> set (splitCsvLine line). comma \<notin> set cell"
proof -
  have d: "detectDelimiters False line = map (\<lambda>c. if c = comma then Delim else Content c) line"
    using assms by (rule detectDelimiters_unquoted)
  have "map charOf (map (\<lambda>c. if c = comma then Delim else Content c) line) = line"
    by (induction line) auto
  then show "join [comma] (splitCsvLine line) = line"
    by (simp add: splitCsvLine_cellsBetween join_cellsBetween d)
  have "Content comma \<notin> set (detectDelimiters False line)"
    unfolding d by auto
  then have "comma \<notin> \<Union> (set ` set (cellsBetween (detectDelimiters False line)))"
    by (simp only: cells_hold_content) simp
  then show "\<forall>cell \<in> set (splitCsvLine line). comma \<notin> set cell"
    by (auto simp: splitCsvLine_cellsBetween)
qed

text \<open>
  C7. Parsing is total and has no effect: \<open>parseCsv\<close> is a terminating function from
  texts to rows, with no error value, since nothing the source does to a string can
  raise (an index past the end of the line reads \<^verbatim>\<open>undefined\<close>). Whatever the quoting,
  every row is the non-empty vector of the cells between the delimiters detected in one
  trimmed, non-empty line: the cells of a line, joined by commas again, are the line
  without its quote syntax, and for a line without quotes they are the line itself, cut
  at every comma.
\<close>

theorem C7_parseCsv_total:
  "parseCsv text
     = map (\<lambda>line. cellsBetween (detectDelimiters False line))
         (filter (\<lambda>l. l \<noteq> []) (map trim (splitLines text)))
   \<and> [] \<notin> set (parseCsv text)
   \<and> join [comma] (splitCsvLine line) = map charOf (detectDelimiters False line)
   \<and> (dquote \<notin> set line \<longrightarrow>
        join [comma] (splitCsvLine line) = line
        \<and> (\<forall>cell \<in> set (splitCsvLine line). comma \<notin> set cell))"
proof -
  have "[] \<notin> set (parseCsv text)"
  proof
    assume "[] \<in> set (parseCsv text)"
    then obtain l where "[] = splitCsvLine l"
      by (auto simp: parseCsv_def)
    then show False
      using splitCsvLine_nonempty [of l] by simp
  qed
  moreover have "join [comma] (splitCsvLine line) = map charOf (detectDelimiters False line)"
    by (simp add: splitCsvLine_cellsBetween join_cellsBetween)
  ultimately show ?thesis
    using splitCsvLine_unquoted [of line]
    by (simp add: parseCsv_def splitCsvLine_cellsBetween)
qed

text \<open>
  A quote that is never closed and a quote in the middle of a cell; a line without quotes.
\<close>

theorem C7_parseCsv_total_witness:
  "parseCsv (js ''x,\"a,b\<newline>c\"\"d,\"e'') = [[js ''x'', js ''a,b''], [js ''cd'', js ''e'']]
   \<and> [] \<notin> set (parseCsv (js ''x,\"a,b\<newline>c\"\"d,\"e''))
   \<and> dquote \<notin> set (js ''a, b,,c'')
   \<and> splitCsvLine (js ''a, b,,c'') = [js ''a'', js '' b'', js '''', js ''c'']
   \<and> join [comma] (splitCsvLine (js ''a, b,,c'')) = js ''a, b,,c''"
proof -
  have q: "dquote \<notin> set (js ''a, b,,c'')"
    by (simp add: js_def dquote_def)
  have s: "splitCsvLine (js ''a, b,,c'') = [js ''a'', js '' b'', js '''', js ''c'']"
    by (simp add: splitCsvLine_def nextIsQuote_def js_def dquote_def comma_def)
  have p: "parseCsv (js ''x,\"a,b\<newline>c\"\"d,\"e'')
      = [[js ''x'', js ''a,b''], [js ''cd'', js ''e'']]"
    by (simp add: parseCsv_def trim_def splitCsvLine_def nextIsQuote_def isSpace_def js_def
        dquote_def comma_def newline_def creturn_def)
  have "[] \<notin> set (parseCsv (js ''x,\"a,b\<newline>c\"\"d,\"e''))
      \<and> join [comma] (splitCsvLine (js ''a, b,,c'')) = js ''a, b,,c''"
    using C7_parseCsv_total [of "js ''x,\"a,b\<newline>c\"\"d,\"e''" "js ''a, b,,c''"] q
    by blast
  then show ?thesis
    using q s p by blast
qed

subsection \<open>Trimmed lines and the outermost cells\<close>

lemma trim_hd_not_space:
  assumes "trim l \<noteq> []"
  shows "\<not> isSpace (hd (trim l))"
proof -
  define d where "d = dropWhile isSpace l"
  have nd: "dropWhile isSpace (rev d) \<noteq> []" using assms by (simp add: trim_def d_def)
  then have d: "d \<noteq> []" by auto
  then have h: "\<not> isSpace (hd d)" unfolding d_def by (rule hd_dropWhile)
  note nd
  then obtain pre where "rev d = pre @ dropWhile isSpace (rev d)"
    by (metis takeWhile_dropWhile_id)
  then have "d = rev (dropWhile isSpace (rev d)) @ rev pre"
    by (metis rev_append rev_rev_ident)
  moreover have "rev (dropWhile isSpace (rev d)) \<noteq> []"
    using \<open>dropWhile isSpace (rev d) \<noteq> []\<close> by simp
  ultimately have "hd d = hd (rev (dropWhile isSpace (rev d)))"
    by (metis hd_append2)
  then show ?thesis using h by (simp add: trim_def d_def)
qed

lemma trim_last_not_space:
  assumes "trim l \<noteq> []"
  shows "\<not> isSpace (last (trim l))"
proof -
  have "dropWhile isSpace (rev (dropWhile isSpace l)) \<noteq> []"
    using assms by (simp add: trim_def)
  then have "\<not> isSpace (hd (dropWhile isSpace (rev (dropWhile isSpace l))))"
    by (rule hd_dropWhile)
  then show ?thesis
    using assms by (simp add: trim_def last_rev)
qed

lemma first_cell_no_leading_space:
  assumes "line \<noteq> []" and "hd line \<noteq> dquote" and "\<not> isSpace (hd line)"
  shows "noLeadingSpace (hd (splitCsvLine line))"
proof -
  obtain c rest where l: "line = c # rest" using assms(1) by (cases line) auto
  show ?thesis
    using assms(2,3) unfolding l splitCsvLine_def
    by (simp add: splitCsvLoop_cellsBetween [of _ _ _ rest] noLeadingSpace_def)
qed

lemma last_cell_shape:
  "c \<noteq> dquote \<Longrightarrow>
   last (splitCsvLoop cells cur q (body @ [c])) = []
   \<or> (\<exists>pre. last (splitCsvLoop cells cur q (body @ [c])) = pre @ [c])"
proof (induction body arbitrary: cells cur q rule: length_induct)
  case (1 body)
  show ?case
  proof (cases body)
    case Nil
    then show ?thesis using 1(2) by simp
  next
    case (Cons b bs)
    show ?thesis
    proof (cases "b = dquote \<and> q \<and> nextIsQuote (bs @ [c])")
      case True
      then obtain bs' where bs: "bs = dquote # bs'"
        using 1(2) by (cases bs) (auto simp: nextIsQuote_def)
      have "length bs' < length body" using Cons bs by simp
      then show ?thesis
        using 1(1) 1(2) True Cons bs by simp
    next
      case False
      have "length bs < length body" using Cons by simp
      then show ?thesis
        using 1(1) 1(2) False Cons by auto
    qed
  qed
qed

lemma last_cell_no_trailing_space:
  assumes "line \<noteq> []" and "last line \<noteq> dquote" and "\<not> isSpace (last line)"
  shows "noTrailingSpace (last (splitCsvLine line))"
proof -
  obtain body c where l: "line = body @ [c]"
    using assms(1) by (metis rev_exhaust)
  have "c \<noteq> dquote" and "\<not> isSpace c" using assms(2,3) l by simp_all
  then show ?thesis
    using last_cell_shape [of c "[]" "[]" False body]
    unfolding l splitCsvLine_def
    by (auto simp: noTrailingSpace_def noLeadingSpace_def)
qed

text \<open>
  C10, as amended. Every parsed row comes from a physical line that was trimmed first.
  The trimmed line neither starts nor ends with white space; the first cell has no
  leading white space unless the trimmed line starts with a double quote, and the last
  cell has no trailing white space unless the trimmed line ends with a double quote.
\<close>

theorem C10_outer_cells_after_trim:
  assumes "row \<in> set (parseCsv text)"
  shows "\<exists>l \<in> set (splitLines text).
           trim l \<noteq> [] \<and> row = splitCsvLine (trim l)
           \<and> \<not> isSpace (hd (trim l)) \<and> \<not> isSpace (last (trim l))
           \<and> (hd (trim l) \<noteq> dquote \<longrightarrow> noLeadingSpace (hd row))
           \<and> (last (trim l) \<noteq> dquote \<longrightarrow> noTrailingSpace (last row))"
proof -
  obtain l where l: "l \<in> set (splitLines text)" "trim l \<noteq> []" "row = splitCsvLine (trim l)"
    using assms by (auto simp: parseCsv_def)
  show ?thesis
    using l trim_hd_not_space [OF l(2)] trim_last_not_space [OF l(2)]
      first_cell_no_leading_space [of "trim l"] last_cell_no_trailing_space [of "trim l"]
    by blast
qed

text \<open>
  C10 as stated fails: white space at the edges of a quoted outermost field is kept.
\<close>

theorem C10_quoted_edge_space_kept:
  "parseCsv (js ''\"  a \",b,\" c  \"'') = [[js ''  a '', js ''b'', js '' c  '']]
   \<and> \<not> noLeadingSpace (hd (hd (parseCsv (js ''\"  a \",b,\" c  \"''))))
   \<and> \<not> noTrailingSpace (last (hd (parseCsv (js ''\"  a \",b,\" c  \"''))))"
  by (simp add: parseCsv_def trim_def splitCsvLine_def nextIsQuote_def isSpace_def js_def
      dquote_def comma_def newline_def creturn_def noLeadingSpace_def noTrailingSpace_def)

theorem C10_outer_cells_after_trim_witness:
  "[js ''a'', js ''b c''] \<in> set (parseCsv (js ''  a,b c  ''))
   \<and> noLeadingSpace (js ''a'') \<and> noTrailingSpace (js ''b c'')"
proof -
  have m: "[js ''a'', js ''b c''] \<in> set (parseCsv (js ''  a,b c  ''))"
    by (simp add: parseCsv_def trim_def splitCsvLine_def nextIsQuote_def isSpace_def js_def
      dquote_def comma_def newline_def creturn_def)
  have s: "splitLines (js ''  a,b c  '') = [js ''  a,b c  '']"
    by (simp add: js_def newline_def creturn_def)
  have t: "trim (js ''  a,b c  '') = js ''a,b c''"
    by (simp add: trim_def isSpace_def js_def)
  have q: "hd (js ''a,b c'') \<noteq> dquote" "last (js ''a,b c'') \<noteq> dquote"
    by (simp_all add: js_def dquote_def)
  show ?thesis
    using m C10_outer_cells_after_trim [OF m] q
    by (simp add: s t)
qed

section \<open>Properties of step normalization\<close>

lemma containsBr_tail: "\<not> containsBr (c # cs) \<Longrightarrow> \<not> containsBr cs"
  by (cases cs rule: containsBr.cases) auto

lemma matchBr_prefix_without_br:
  assumes "\<not> containsBr (c # cs)"
    and "x = [] \<or> hd x \<notin> {0x62, 0x42, 0x72, 0x52}"
  shows "matchBr (c # cs @ x) = None"
proof (cases cs)
  case Nil
  then show ?thesis
    using assms(2) by (cases x rule: containsBr.cases) (auto simp: isBr_def)
next
  case (Cons d ds)
  show ?thesis
  proof (cases ds)
    case Nil
    then show ?thesis
      using assms(2) Cons by (cases x) (auto simp: isBr_def)
  next
    case (Cons e es)
    then show ?thesis
      using assms(1) \<open>cs = d # ds\<close> by simp
  qed
qed

lemma replaceBr_prefix_without_br:
  "\<not> containsBr p \<Longrightarrow> x = [] \<or> hd x \<notin> {0x62, 0x42, 0x72, 0x52}
   \<Longrightarrow> replaceBr (p @ x) = p @ replaceBr x"
proof (induction p)
  case Nil
  then show ?case by simp
next
  case (Cons c cs)
  have "matchBr (c # cs @ x) = None"
    using Cons.prems by (rule matchBr_prefix_without_br)
  then show ?case
    using Cons containsBr_tail [of c cs] by simp
qed

lemma matchBrTail_append:
  assumes "matchBrTail r = Some s"
  shows "matchBrTail (r @ x) = Some (s @ x)"
proof -
  have "dropWhile isSpace r = [] \<Longrightarrow> matchBrTail r = None"
    by (simp add: matchBrTail_def del: dropWhile_eq_Nil_conv)
  then obtain c cs where c: "dropWhile isSpace r = c # cs"
    using assms by (cases "dropWhile isSpace r") auto
  then have "c \<in> set r" and "\<not> isSpace c"
    using set_dropWhileD [of c isSpace r] hd_dropWhile [of isSpace r] by auto
  then have e: "dropWhile isSpace (r @ x) = c # cs @ x"
    using dropWhile_append1 [of c r isSpace x] c by simp
  show ?thesis
    using assms unfolding matchBrTail_def e c
    by (auto simp: Let_def split: list.splits if_splits)
qed

lemma matchBr_append:
  "matchBr m = Some s \<Longrightarrow> matchBr (m @ x) = Some (s @ x)"
  by (cases m rule: matchBr.cases) (auto simp: matchBrTail_append split: if_splits)

lemma replaceBr_marker:
  assumes "isMarker m"
  shows "replaceBr (m @ x) = newline # replaceBr x"
proof -
  obtain c cs where m: "m = c # cs"
    using assms by (cases m) (auto simp: isMarker_def)
  have "matchBr (c # cs @ x) = Some x"
    using matchBr_append [of m "[]" x] assms by (simp add: isMarker_def m)
  then show ?thesis by (simp add: m)
qed

lemma marker_head:
  assumes "isMarker m"
  shows "m \<noteq> [] \<and> hd m \<notin> {0x62, 0x42, 0x72, 0x52}"
  using assms
  by (cases m rule: matchBr.cases) (auto simp: isMarker_def isBr_def split: if_splits)

lemma replaceBr_phrase_marker:
  assumes "\<not> containsBr p" and "isMarker m"
  shows "replaceBr (p @ m @ x) = p @ newline # replaceBr x"
  using replaceBr_prefix_without_br [OF assms(1), of "m @ x"] marker_head [OF assms(2)]
  by (simp add: replaceBr_marker [OF assms(2)])

lemma replaceBr_phrase_newline:
  assumes "\<not> containsBr p"
  shows "replaceBr (p @ newline # x) = p @ newline # replaceBr x"
proof -
  have "matchBr (newline # x) = None"
    by (cases x rule: containsBr.cases) (auto simp: isBr_def newline_def)
  then show ?thesis
    using replaceBr_prefix_without_br [OF assms, of "newline # x"]
    by (simp add: newline_def)
qed

lemma replaceBr_without_br: "\<not> containsBr p \<Longrightarrow> replaceBr p = p"
  using replaceBr_prefix_without_br [of p "[]"] by simp

lemma splitRuns_no_newline: "newline \<notin> set s \<Longrightarrow> splitRuns b s = [s]"
  by (induction s arbitrary: b) auto

lemma splitRuns_first_piece:
  "newline \<notin> set p \<Longrightarrow> splitRuns False (p @ newline # rest) = p # splitRuns True rest"
  by (induction p) auto

lemma normalizeSteps_no_empty: "[] \<notin> set (normalizeSteps raw)"
  by (simp add: normalizeSteps_def)

lemma normalizeSteps_trimmed:
  assumes "s \<in> set (normalizeSteps raw)"
  shows "noLeadingSpace s \<and> noTrailingSpace s"
proof -
  obtain l where l: "s = trim l" "trim l \<noteq> []"
    using assms by (auto simp: normalizeSteps_def)
  then obtain c cs where c: "trim l = c # cs" by (cases "trim l") auto
  obtain ds d where d: "trim l = ds @ [d]" using l(2) by (metis rev_exhaust)
  have "noLeadingSpace s"
    using trim_hd_not_space [OF l(2)] l(1) by (simp add: noLeadingSpace_def c)
  moreover have "noTrailingSpace s"
    using trim_last_not_space [OF l(2)] l(1)
    by (simp add: noTrailingSpace_def noLeadingSpace_def d)
  ultimately show ?thesis by simp
qed

lemma normalizeSteps_two_phrases:
  assumes "isMarker m" and "phrase p" and "phrase q"
  shows "normalizeSteps (p @ m @ q) = [trim p, trim q]"
proof -
  have "replaceBr (p @ m @ q) = p @ newline # q"
    using assms by (simp add: phrase_def replaceBr_phrase_marker replaceBr_without_br)
  moreover have "splitRuns False (p @ newline # q) = [p, q]"
    using assms(2,3) by (simp add: phrase_def splitRuns_first_piece splitRuns_no_newline)
  ultimately show ?thesis
    using assms(2,3) by (simp add: normalizeSteps_def phrase_def)
qed

lemma replaceBr_join_marker:
  "isMarker m \<Longrightarrow> \<forall>p \<in> set ps. \<not> containsBr p
   \<Longrightarrow> replaceBr (join m ps) = join [newline] ps"
proof (induction m ps rule: join.induct)
  case (1 sep)
  then show ?case by simp
next
  case (2 sep x)
  then show ?case by (simp add: replaceBr_without_br)
next
  case (3 sep x y ys)
  then show ?case
    by (simp add: replaceBr_phrase_marker)
qed

lemma replaceBr_join_newline:
  "\<forall>p \<in> set ps. \<not> containsBr p \<Longrightarrow> replaceBr (join [newline] ps) = join [newline] ps"
proof (induction "[newline]" ps rule: join.induct)
  case 1
  then show ?case by simp
next
  case (2 x)
  then show ?case by (simp add: replaceBr_without_br)
next
  case (3 x y ys)
  then show ?case
    by (simp add: replaceBr_phrase_newline)
qed

lemma normalizeSteps_join_marker:
  assumes "isMarker m" and "\<forall>p \<in> set ps. \<not> containsBr p"
  shows "normalizeSteps (join m ps) = normalizeSteps (join [newline] ps)"
  using assms
  by (simp add: normalizeSteps_def replaceBr_join_marker replaceBr_join_newline)

text \<open>
  C5. No step is empty, and every step is trimmed. One marker between two phrases
  gives exactly the two phrases, trimmed. Phrases joined by a marker and the same
  phrases joined by a newline give the same steps.
\<close>

theorem C5_normalizeSteps:
  "[] \<notin> set (normalizeSteps raw)
   \<and> (\<forall>s \<in> set (normalizeSteps raw). noLeadingSpace s \<and> noTrailingSpace s)
   \<and> (isMarker m \<and> phrase p \<and> phrase q \<longrightarrow>
        normalizeSteps (p @ m @ q) = [trim p, trim q]
        \<and> normalizeSteps (p @ m @ q) = normalizeSteps (p @ [newline] @ q))
   \<and> (isMarker m \<and> (\<forall>p \<in> set ps. \<not> containsBr p) \<longrightarrow>
        normalizeSteps (join m ps) = normalizeSteps (join [newline] ps))"
proof -
  have "normalizeSteps (p @ m @ q) = normalizeSteps (p @ [newline] @ q)"
    if "isMarker m" and "phrase p" and "phrase q"
    using normalizeSteps_join_marker [of m "[p, q]"] that by (simp add: phrase_def)
  then show ?thesis
    using normalizeSteps_no_empty normalizeSteps_trimmed normalizeSteps_two_phrases
      normalizeSteps_join_marker
    by blast
qed

theorem C5_normalizeSteps_witness:
  "isMarker (js ''<BR />'') \<and> phrase (js ''open the page '') \<and> phrase (js '' press Save'')
   \<and> normalizeSteps (js ''open the page <BR /> press Save'')
       = [js ''open the page'', js ''press Save'']
   \<and> normalizeSteps (js ''open the page <BR /> press Save'')
       = normalizeSteps (js ''open the page \<newline> press Save'')
   \<and> [] \<notin> set (normalizeSteps (js ''<br>\<newline> <br/>a<br>''))
   \<and> normalizeSteps (js ''<br>\<newline> <br/>a<br>'') = [js ''a'']"
proof -
  have m: "isMarker (js ''<BR />'')"
    by (simp add: isMarker_def matchBrTail_def isBr_def isSpace_def js_def)
  have p: "phrase (js ''open the page '')"
    by (simp add: phrase_def trim_def isSpace_def js_def newline_def isBr_def)
  have q: "phrase (js '' press Save'')"
    by (simp add: phrase_def trim_def isSpace_def js_def newline_def isBr_def)
  have t: "trim (js ''open the page '') = js ''open the page''"
    "trim (js '' press Save'') = js ''press Save''"
    by (simp_all add: trim_def isSpace_def js_def)
  have c: "js ''open the page '' @ js ''<BR />'' @ js '' press Save''
      = js ''open the page <BR /> press Save''"
    "js ''open the page '' @ newline # js '' press Save''
      = js ''open the page \<newline> press Save''"
    by (simp_all add: js_def newline_def)
  have e: "normalizeSteps (js ''<br>\<newline> <br/>a<br>'') = [js ''a'']"
    by (simp add: normalizeSteps_def matchBrTail_def isBr_def trim_def isSpace_def js_def
        newline_def)
  show ?thesis
    using C5_normalizeSteps [of "js ''<br>\<newline> <br/>a<br>''" "js ''<BR />''"
        "js ''open the page ''" "js '' press Save''" "[]"] m p q
    by (auto simp: t c e)
qed

section \<open>Properties of the reconciliation merge\<close>

lemma find_append_cases:
  "find P (xs @ ys) = (case find P xs of None \<Rightarrow> find P ys | Some x \<Rightarrow> Some x)"
  by (induction xs) auto

lemma find_Some_member: "find P xs = Some x \<Longrightarrow> P x \<and> x \<in> set xs"
  by (induction xs) (auto split: if_splits)

lemma fold_saved:
  "fold (\<lambda>item acc. acc(id' item \<mapsto> item)) cs m k
     = (case find (\<lambda>c. id' c = k) (rev cs) of None \<Rightarrow> m k | Some c \<Rightarrow> Some c)"
proof (induction cs arbitrary: m)
  case Nil
  then show ?case by simp
next
  case (Cons c cs)
  have "fold (\<lambda>item acc. acc(id' item \<mapsto> item)) (c # cs) m k
      = fold (\<lambda>item acc. acc(id' item \<mapsto> item)) cs (m(id' c \<mapsto> c)) k"
    by simp
  also have "\<dots> = (case find (\<lambda>c. id' c = k) (rev cs) of
                      None \<Rightarrow> (m(id' c \<mapsto> c)) k | Some c \<Rightarrow> Some c)"
    by (rule Cons.IH)
  also have "\<dots> = (case find (\<lambda>c. id' c = k) (rev (c # cs)) of
                      None \<Rightarrow> m k | Some c \<Rightarrow> Some c)"
    by (simp add: find_append_cases split: option.splits)
  finally show ?case .
qed

lemma savedMap_priorCase: "savedMap cs k = priorCase cs k"
  by (simp add: savedMap_def priorCase_def fold_saved split: option.splits)


lemma priorCase_Some_id: "priorCase cs k = Some s \<Longrightarrow> id' s = k \<and> s \<in> set cs"
  using find_Some_member [of "\<lambda>c. id' c = k" "rev cs" s] by (simp add: priorCase_def)




lemma mergeRow_found:
  assumes "priorCase cs (cellAt row 0) = Some s"
  shows "status (mergeRow (savedMap cs) row) = (if status s = [] then notRun else status s)"
    and "actual (mergeRow (savedMap cs) row) = actual s"
    and "updatedAt (mergeRow (savedMap cs) row) = updatedAt s"
  using assms by (simp_all add: mergeRow_def savedMap_priorCase)

lemma mergeRow_not_found:
  assumes "priorCase cs (cellAt row 0) = None"
  shows "status (mergeRow (savedMap cs) row) = notRun"
    and "actual (mergeRow (savedMap cs) row) = []"
    and "updatedAt (mergeRow (savedMap cs) row) = []"
  using assms by (simp_all add: mergeRow_def savedMap_priorCase)








section \<open>The status invariant and restoring\<close>

lemma notRun_valid: "notRun \<in> set STATUS_OPTIONS"
  by (simp add: STATUS_OPTIONS_def)

lemma mergeRow_status_valid:
  assumes "statusesValid cs"
  shows "status (mergeRow (savedMap cs) row) \<in> set STATUS_OPTIONS"
proof (cases "priorCase cs (cellAt row 0)")
  case None
  then show ?thesis by (simp add: mergeRow_not_found notRun_valid)
next
  case (Some s)
  then have "s \<in> set cs" using priorCase_Some_id by blast
  then have "status s \<in> set STATUS_OPTIONS" using assms by (simp add: statusesValid_def)
  then show ?thesis using Some by (simp add: mergeRow_found notRun_valid)
qed

lemma invariant_persist: "statusesValid (cases st) \<Longrightarrow> invariant (persist now st)"
  by (simp add: invariant_def persist_def storedValid_def)

lemma invariant_applyRows:
  assumes "invariant st"
  shows "invariant (applyRows rows filename now st)"
proof (cases "rows = []")
  case True
  then show ?thesis using assms by (simp add: applyRows_def toast_def invariant_def)
next
  case False
  have "statusesValid (map (mergeRow (savedMap (cases st))) (drop (startIndex rows) rows))"
    using assms mergeRow_status_valid [of "cases st"]
    by (simp add: statusesValid_def invariant_def)
  then show ?thesis
    using False by (simp add: applyRows_def invariant_persist refreshLookups_def)
qed

lemma invariant_setStatus:
  assumes "invariant st" and "newStatus \<in> set STATUS_OPTIONS"
  shows "invariant (setStatus i newStatus now savedAt st)"
proof -
  have "statusesValid ((cases st)[i := (cases st ! i)\<lparr>status := newStatus, updatedAt := now\<rparr>])"
    using assms by (auto simp: statusesValid_def invariant_def dest!: set_update_subset_insert [THEN subsetD])
  then have "statusesValid (cases (st\<lparr>cases :=
      (if i < length (cases st)
       then (cases st)[i := (cases st ! i)\<lparr>status := newStatus, updatedAt := now\<rparr>]
       else cases st)\<rparr>\<lparr>dirty := True\<rparr>))"
    using assms(1) by (simp add: invariant_def)
  then show ?thesis
    unfolding setStatus_def markDirty_def by (rule invariant_persist)
qed

lemma invariant_restoreFromLocal:
  assumes "invariant st"
  shows "invariant (restoreFromLocal st)"
  using assms
  by (auto simp: invariant_def restoreFromLocal_def tryRestore_def storedValid_def
      statusesValid_def split: item.splits sum.splits parsed.splits option.splits)

lemma invariant_perform:
  assumes "invariant st" and "editValid a"
  shows "invariant (perform a st)"
proof (cases a)
  case (Persist now)
  then show ?thesis
    using assms(1) invariant_persist [of st now] by (simp add: invariant_def)
qed (use assms in \<open>simp_all add: invariant_applyRows applyCsv_def invariant_setStatus
      invariant_restoreFromLocal\<close>)

text \<open>
  C6, as amended. Starting from a collection and a stored item whose statuses are all
  among the five options, every sequence of imports, saves, restores and status edits
  that pass one of the five options leads to such a collection and stored item again.
\<close>

theorem C6_status_enum_preserved:
  assumes "statusesValid (cases st)" and "storedValid (localStorage st)"
    and "\<forall>a \<in> set acts. editValid a"
  shows "statusesValid (cases (run acts st)) \<and> storedValid (localStorage (run acts st))"
proof -
  have "invariant st \<Longrightarrow> \<forall>a \<in> set acts. editValid a \<Longrightarrow> invariant (fold perform acts st)"
    by (induction acts arbitrary: st) (simp_all add: invariant_perform)
  then show ?thesis
    using assms by (simp add: invariant_def run_def)
qed

text \<open>
  C6 as stated fails: \<^verbatim>\<open>setStatus\<close> stores any string it is given, and a restore takes
  over whatever statuses the stored cases have.
\<close>

theorem C6_free_text_status:
  "statusesValid (cases ((initial NoItem)\<lparr>cases := [exampleCase (js ''TC-1'') notRun [] []]\<rparr>))
   \<and> storedValid (localStorage ((initial NoItem)\<lparr>cases := [exampleCase (js ''TC-1'') notRun [] []]\<rparr>))
   \<and> map status (cases (run [SetStatus 0 (js ''done'') (js ''2024-05-02T09:00:00.000Z'')
                               (js ''2024-05-02T09:00:00.001Z'')]
        ((initial NoItem)\<lparr>cases := [exampleCase (js ''TC-1'') notRun [] []]\<rparr>)))
       = [js ''done'']
   \<and> js ''done'' \<notin> set STATUS_OPTIONS
   \<and> map status (cases (run [RestoreFromLocal]
        (initial (Item (Inr (JsonData (Some [exampleCase (js ''TC-1'') (js ''done'') [] []])
                               (Some (js ''a.csv'')) None))))))
       = [js ''done'']"
  by (simp add: run_def setStatus_def markDirty_def persist_def restoreFromLocal_def
      tryRestore_def initial_def exampleCase_def js_def statusesValid_def storedValid_def
      STATUS_OPTIONS_def notRun_def passed_def failed_def blocked_def skipped_def)

text \<open>A restore, an import, a valid edit and another restore.\<close>

theorem C6_status_enum_preserved_witness:
  "statusesValid (cases (initial (Item (Inr (JsonData (Some [exampleCase (js ''TC-1'') passed [] []])
                               (Some (js ''a.csv'')) None)))))
   \<and> storedValid (localStorage (initial (Item (Inr (JsonData
         (Some [exampleCase (js ''TC-1'') passed [] []]) (Some (js ''a.csv'')) None)))))
   \<and> editValid RestoreFromLocal
   \<and> editValid (ApplyRows [[js ''TC-1''], [js ''TC-2'']] (js ''b.csv'') (js ''t1''))
   \<and> editValid (SetStatus 1 blocked (js ''t2'') (js ''t3''))
   \<and> map status (cases (run [RestoreFromLocal,
          ApplyRows [[js ''TC-1''], [js ''TC-2'']] (js ''b.csv'') (js ''t1''),
          SetStatus 1 blocked (js ''t2'') (js ''t3''), RestoreFromLocal]
        (initial (Item (Inr (JsonData (Some [exampleCase (js ''TC-1'') passed [] []])
                               (Some (js ''a.csv'')) None))))))
       = [passed, blocked]
   \<and> statusesValid (cases (run [RestoreFromLocal,
          ApplyRows [[js ''TC-1''], [js ''TC-2'']] (js ''b.csv'') (js ''t1''),
          SetStatus 1 blocked (js ''t2'') (js ''t3''), RestoreFromLocal]
        (initial (Item (Inr (JsonData (Some [exampleCase (js ''TC-1'') passed [] []])
                               (Some (js ''a.csv'')) None))))))"
proof -
  define st where "st = initial (Item (Inr (JsonData (Some [exampleCase (js ''TC-1'') passed [] []])
                               (Some (js ''a.csv'')) None)))"
  define acts where "acts = [RestoreFromLocal,
          ApplyRows [[js ''TC-1''], [js ''TC-2'']] (js ''b.csv'') (js ''t1''),
          SetStatus 1 blocked (js ''t2'') (js ''t3''), RestoreFromLocal]"
  have a: "statusesValid (cases st)"
    by (simp add: st_def initial_def statusesValid_def)
  have b: "storedValid (localStorage st)"
    by (simp add: st_def initial_def storedValid_def statusesValid_def exampleCase_def
        STATUS_OPTIONS_def)
  have c: "\<forall>a \<in> set acts. editValid a"
    by (simp add: acts_def STATUS_OPTIONS_def)
  have d: "map status (cases (run acts st)) = [passed, blocked]"
    by (simp add: acts_def st_def run_def applyRows_def setStatus_def markDirty_def
        persist_def refreshLookups_def restoreFromLocal_def tryRestore_def initial_def
        startIndex_def includesStr_def headerMarker_def mergeRow_def savedMap_def cellAt_def
        exampleCase_def js_def notRun_def passed_def blocked_def)
  show ?thesis
    using C6_status_enum_preserved [OF a b c] a b c d
    unfolding st_def acts_def
    by simp
qed

lemma restore_failure_unchanged:
  "tryRestore outcome st = Inl e \<Longrightarrow> restoreFromLocal st = st"
  if "localStorage st = Item outcome"
  using that by (simp add: restoreFromLocal_def)

lemma restore_absent_fields:
  assumes "localStorage st = Item (Inr (JsonData c f t))"
  shows "cases (restoreFromLocal st) = (case c of None \<Rightarrow> [] | Some cs \<Rightarrow> cs)"
    and "sourceFile (restoreFromLocal st) = (case f of None \<Rightarrow> [] | Some n \<Rightarrow> n)"
    and "lastSavedAt (restoreFromLocal st)
           = (case t of None \<Rightarrow> None | Some ts \<Rightarrow> if ts = [] then None else Some ts)"
  using assms by (simp_all add: restoreFromLocal_def tryRestore_def)

text \<open>
  C9. Whatever makes the \<^verbatim>\<open>try\<close> block fail, a stored text that does not parse or one
  that parses to \<^verbatim>\<open>null\<close>, the restore returns the component unchanged instead of the
  error: at start-up that is the empty collection, the empty file name and no time
  stamp, and \<^verbatim>\<open>init\<close> goes on to ask for an import. A parsed value gives each absent
  property its default and takes over the properties that are there.
\<close>

theorem C9_load_is_permissive:
  "(localStorage st = Item outcome \<and> tryRestore outcome st = Inl e \<longrightarrow> restoreFromLocal st = st)
   \<and> tryRestore (Inl e) st = Inl e
   \<and> tryRestore (Inr JsonNull) st = Inl TypeError
   \<and> cases (restoreFromLocal (initial (Item (Inl e)))) = []
   \<and> sourceFile (restoreFromLocal (initial (Item (Inl e)))) = []
   \<and> lastSavedAt (restoreFromLocal (initial (Item (Inl e)))) = None
   \<and> init (initial (Item (Inl e))) = (initial (Item (Inl e)))\<lparr>message := importHint\<rparr>
   \<and> cases (restoreFromLocal (initial (Item (Inr (JsonData None None None))))) = []
   \<and> sourceFile (restoreFromLocal (initial (Item (Inr (JsonData None None None))))) = []
   \<and> lastSavedAt (restoreFromLocal (initial (Item (Inr (JsonData None None None))))) = None
   \<and> (localStorage st = Item (Inr (JsonData c f t)) \<longrightarrow>
        cases (restoreFromLocal st) = (case c of None \<Rightarrow> [] | Some cs \<Rightarrow> cs)
        \<and> sourceFile (restoreFromLocal st) = (case f of None \<Rightarrow> [] | Some n \<Rightarrow> n)
        \<and> lastSavedAt (restoreFromLocal st)
            = (case t of None \<Rightarrow> None | Some ts \<Rightarrow> if ts = [] then None else Some ts))"
proof -
  have start: "restoreFromLocal (initial (Item (Inl e))) = initial (Item (Inl e))"
    using restore_failure_unchanged [of "initial (Item (Inl e))" "Inl e" e]
    by (simp add: initial_def tryRestore_def)
  have "init (initial (Item (Inl e))) = (initial (Item (Inl e)))\<lparr>message := importHint\<rparr>"
    by (simp add: init_def start) (simp add: initial_def)
  moreover have "cases (initial (Item (Inl e))) = []" "sourceFile (initial (Item (Inl e))) = []"
    "lastSavedAt (initial (Item (Inl e))) = None"
    by (simp_all add: initial_def)
  moreover have "localStorage (initial (Item (Inr (JsonData None None None))))
      = Item (Inr (JsonData None None None))"
    by (simp add: initial_def)
  ultimately show ?thesis
    using restore_failure_unchanged [of st outcome e]
      restore_absent_fields [of st c f t]
      restore_absent_fields [of "initial (Item (Inr (JsonData None None None)))" None None None]
    by (simp add: start tryRestore_def)
qed

text \<open>A stored \<^verbatim>\<open>null\<close>, and a stored object that has a file name only.\<close>

theorem C9_load_is_permissive_witness:
  "localStorage (initial (Item (Inr JsonNull))) = Item (Inr JsonNull)
   \<and> tryRestore (Inr JsonNull) (initial (Item (Inr JsonNull))) = Inl TypeError
   \<and> restoreFromLocal (initial (Item (Inr JsonNull))) = initial (Item (Inr JsonNull))
   \<and> cases (restoreFromLocal (initial (Item (Inr JsonNull)))) = []
   \<and> localStorage (initial (Item (Inr (JsonData None (Some (js ''a.csv'')) None))))
       = Item (Inr (JsonData None (Some (js ''a.csv'')) None))
   \<and> cases (restoreFromLocal (initial (Item (Inr (JsonData None (Some (js ''a.csv'')) None))))) = []
   \<and> sourceFile (restoreFromLocal (initial (Item (Inr (JsonData None (Some (js ''a.csv'')) None)))))
       = js ''a.csv''
   \<and> lastSavedAt (restoreFromLocal (initial (Item (Inr (JsonData None (Some (js ''a.csv'')) None)))))
       = None"
proof -
  have a: "localStorage (initial (Item (Inr JsonNull))) = Item (Inr JsonNull)"
    by (simp add: initial_def)
  have b: "tryRestore (Inr JsonNull) (initial (Item (Inr JsonNull))) = Inl TypeError"
    by (simp add: tryRestore_def)
  have c: "localStorage (initial (Item (Inr (JsonData None (Some (js ''a.csv'')) None))))
       = Item (Inr (JsonData None (Some (js ''a.csv'')) None))"
    by (simp add: initial_def)
  have d: "cases (initial (Item (Inr JsonNull))) = []"
    by (simp add: initial_def)
  show ?thesis
    using C9_load_is_permissive [of "initial (Item (Inr JsonNull))" "Inr JsonNull" TypeError
        None None None]
      C9_load_is_permissive [of "initial (Item (Inr (JsonData None (Some (js ''a.csv'')) None)))"
        "Inr JsonNull" TypeError None "Some (js ''a.csv'')" None]
      a b c d
    by simp
qed

section \<open>Properties of the aggregator\<close>

subsection \<open>Bounds on rounded values\<close>

lemma pow2_pos: "0 < pow2 e"
  by (simp add: pow2_def)

lemma roundTiesToEven_nonneg: "0 \<le> y \<Longrightarrow> 0 \<le> roundTiesToEven y"
  by (auto simp: roundTiesToEven_def Let_def)

lemma roundTiesToEven_le_int:
  assumes "y \<le> of_int n"
  shows "roundTiesToEven y \<le> n"
proof (cases "\<lfloor>y\<rfloor> = n")
  case True
  then have "y - of_int \<lfloor>y\<rfloor> \<le> 0" using assms by simp
  then show ?thesis using True by (simp add: roundTiesToEven_def Let_def)
next
  case False
  have "\<lfloor>y\<rfloor> \<le> n" using assms by (simp add: floor_le_iff)
  then have "\<lfloor>y\<rfloor> + 1 \<le> n" using False by simp
  then show ?thesis by (auto simp: roundTiesToEven_def Let_def)
qed

lemma toDouble_nonneg: "0 \<le> x \<Longrightarrow> 0 \<le> toDouble x"
  using pow2_pos [of "binade \<bar>x\<bar> - 52"]
  by (auto simp: toDouble_def Let_def roundTiesToEven_nonneg intro!: mult_nonneg_nonneg)

lemma toDouble_le_grid:
  assumes "0 < x" and "x \<le> c" and "c = pow2 (binade x - 52) * of_int n"
  shows "toDouble x \<le> c"
proof -
  define u where "u = pow2 (binade x - 52)"
  have u: "0 < u" by (simp add: u_def pow2_pos)
  have "x / u \<le> of_int n"
    using assms(2,3) u by (simp add: u_def [symmetric] pos_divide_le_eq mult.commute)
  then have "roundTiesToEven (x / u) \<le> n" by (rule roundTiesToEven_le_int)
  then have "u * of_int (roundTiesToEven (x / u)) \<le> u * of_int n"
    using u by simp
  then show ?thesis
    using assms(1,3) by (simp add: toDouble_def Let_def u_def [symmetric])
qed

lemma pow2_grid:
  assumes "e \<le> 52"
  shows "of_int k = pow2 (e - 52) * of_int (k * 2 ^ nat (52 - e))"
  using assms by (auto simp: pow2_def)

lemma binade_le_1: "0 < x \<Longrightarrow> x \<le> 1 \<Longrightarrow> binade x \<le> 0"
  using bitlen_nonneg [of "\<lceil>1 / x\<rceil> - 1"] bitlen_le_iff_power [of 1 1]
  by (cases "x = 1") (auto simp: binade_def)

lemma binade_le_100:
  assumes "0 < x" and "x \<le> 100"
  shows "binade x \<le> 6"
proof (cases "1 \<le> x")
  case True
  have "\<lfloor>x\<rfloor> < 2 ^ nat 7" using assms(2) by (simp add: floor_less_iff)
  then have "bitlen \<lfloor>x\<rfloor> \<le> 7" by (simp add: bitlen_le_iff_power)
  then show ?thesis using True by (simp add: binade_def)
next
  case False
  then show ?thesis
    using bitlen_nonneg [of "\<lceil>1 / x\<rceil> - 1"] by (simp add: binade_def)
qed

lemma toDouble_le_1:
  assumes "0 \<le> x" and "x \<le> 1"
  shows "toDouble x \<le> 1"
proof (cases "x = 0")
  case True
  then show ?thesis by (simp add: toDouble_def)
next
  case False
  then have p: "0 < x" using assms(1) by simp
  have "binade x \<le> 52" using binade_le_1 [OF p assms(2)] by simp
  then have "(1::rat) = pow2 (binade x - 52) * of_int (1 * 2 ^ nat (52 - binade x))"
    using pow2_grid [of "binade x" 1] by simp
  then show ?thesis
    by (rule toDouble_le_grid [OF p assms(2)])
qed

lemma toDouble_le_100:
  assumes "0 \<le> x" and "x \<le> 100"
  shows "toDouble x \<le> 100"
proof (cases "x = 0")
  case True
  then show ?thesis by (simp add: toDouble_def)
next
  case False
  then have p: "0 < x" using assms(1) by simp
  have "binade x \<le> 52" using binade_le_100 [OF p assms(2)] by simp
  then have "(100::rat) = pow2 (binade x - 52) * of_int (100 * 2 ^ nat (52 - binade x))"
    using pow2_grid [of "binade x" 100] by simp
  then show ?thesis
    by (rule toDouble_le_grid [OF p assms(2)])
qed

subsection \<open>The rounding is that of double precision\<close>

text \<open>
  The exponent brackets its argument; the result of \<open>toDouble\<close> is a significand of
  53 bits times the unit in the last place, and lies within half a unit of the argument.
\<close>

lemma pow2_nonneg_exp: "0 \<le> e \<Longrightarrow> pow2 e = 2 ^ nat e"
  by (simp add: pow2_def)

lemma pow2_neg_exp: "e \<le> 0 \<Longrightarrow> pow2 e = 1 / 2 ^ nat (- e)"
  by (simp add: pow2_def)

lemma binade_bounds_ge_1:
  assumes "1 \<le> x"
  shows "pow2 (binade x) \<le> x" and "x < pow2 (binade x + 1)"
proof -
  define n where "n = \<lfloor>x\<rfloor>"
  have n: "0 < n" using assms by (simp add: n_def)
  have b: "2 ^ nat (bitlen n - 1) \<le> n" "n < 2 ^ nat (bitlen n)"
    using bitlen_bounds [OF n] by simp_all
  have k: "1 \<le> bitlen n" using n by (simp add: bitlen_alt_def)
  have "(of_int (2 ^ nat (bitlen n - 1)) :: rat) \<le> of_int n"
    using b(1) by (simp only: of_int_le_iff)
  also have "\<dots> \<le> x" by (simp add: n_def)
  finally show "pow2 (binade x) \<le> x"
    using assms k by (simp add: binade_def n_def [symmetric] pow2_nonneg_exp)
  have "n + 1 \<le> 2 ^ nat (bitlen n)" using b(2) by simp
  then have "(of_int (n + 1) :: rat) \<le> of_int (2 ^ nat (bitlen n))"
    by (simp only: of_int_le_iff)
  moreover have "x < of_int (n + 1)" unfolding n_def by linarith
  ultimately have "x < of_int (2 ^ nat (bitlen n))" by (rule less_le_trans [rotated])
  then show "x < pow2 (binade x + 1)"
    using assms k by (simp add: binade_def n_def [symmetric] pow2_nonneg_exp)
qed

lemma binade_bounds_less_1:
  assumes "0 < x" and "x < 1"
  shows "pow2 (binade x) \<le> x" and "x < pow2 (binade x + 1)"
proof -
  define m where "m = \<lceil>1 / x\<rceil> - 1"
  have z: "1 < 1 / x" using assms by simp
  then have "2 \<le> \<lceil>1 / x\<rceil>" by (simp add: le_ceiling_iff)
  then have m: "0 < m" by (simp add: m_def)
  have b: "2 ^ nat (bitlen m - 1) \<le> m" "m < 2 ^ nat (bitlen m)"
    using bitlen_bounds [OF m] by simp_all
  have k: "1 \<le> bitlen m" using m by (simp add: bitlen_alt_def)
  have e: "binade x = - bitlen m"
    using assms by (simp add: binade_def m_def)
  have "m + 1 \<le> 2 ^ nat (bitlen m)" using b(2) by simp
  then have "(of_int (m + 1) :: rat) \<le> of_int (2 ^ nat (bitlen m))"
    by (simp only: of_int_le_iff)
  moreover have "1 / x \<le> of_int (m + 1)" by (simp add: m_def)
  ultimately have "1 / x \<le> of_int (2 ^ nat (bitlen m))" by (rule order_trans [rotated])
  then have "1 / x \<le> 2 ^ nat (bitlen m)" by simp
  then have "1 \<le> 2 ^ nat (bitlen m) * x"
    using assms(1) by (simp add: pos_divide_le_eq)
  then have "1 / 2 ^ nat (bitlen m) \<le> x"
    by (simp add: pos_divide_le_eq mult.commute)
  then show "pow2 (binade x) \<le> x"
    using k by (simp add: e pow2_neg_exp)
  have "(of_int (2 ^ nat (bitlen m - 1)) :: rat) \<le> of_int m"
    using b(1) by (simp only: of_int_le_iff)
  moreover have "of_int m < 1 / x"
    unfolding m_def using ceiling_correct [of "1 / x"] by simp
  ultimately have "of_int (2 ^ nat (bitlen m - 1)) < 1 / x" by (rule le_less_trans)
  then have "2 ^ nat (bitlen m - 1) < 1 / x" by simp
  then have "2 ^ nat (bitlen m - 1) * x < 1"
    using assms(1) by (simp add: pos_less_divide_eq)
  then have "x < 1 / 2 ^ nat (bitlen m - 1)"
    by (simp add: pos_less_divide_eq mult.commute)
  moreover have "nat (- (1 - bitlen m)) = nat (bitlen m - 1)" by simp
  ultimately show "x < pow2 (binade x + 1)"
    using k by (simp add: e pow2_neg_exp)
qed

lemma binade_bounds:
  assumes "0 < x"
  shows "pow2 (binade x) \<le> x \<and> x < pow2 (binade x + 1)"
  using assms binade_bounds_ge_1 [of x] binade_bounds_less_1 [of x]
  by (cases "1 \<le> x") auto

lemma roundTiesToEven_near: "\<bar>of_int (roundTiesToEven y) - y\<bar> \<le> 1 / 2"
proof -
  define d where "d = y - of_int \<lfloor>y\<rfloor>"
  have d: "0 \<le> d" "d < 1" unfolding d_def by linarith+
  have "of_int (roundTiesToEven y) - y
      = (if d < 1 / 2 then - d else if 1 / 2 < d then 1 - d
         else if even \<lfloor>y\<rfloor> then - d else 1 - d)"
    by (simp add: roundTiesToEven_def Let_def d_def)
  then show ?thesis
    using d by (simp add: abs_if split: if_splits)
qed

lemma toDouble_near:
  assumes "0 < x"
  shows "\<bar>toDouble x - x\<bar> \<le> pow2 (binade x - 52) / 2"
proof -
  define u where "u = pow2 (binade x - 52)"
  have u: "0 < u" by (simp add: u_def pow2_pos)
  have "toDouble x - x = u * (of_int (roundTiesToEven (x / u)) - x / u)"
    using assms u by (simp add: toDouble_def Let_def u_def [symmetric] algebra_simps)
  then have "\<bar>toDouble x - x\<bar> = u * \<bar>of_int (roundTiesToEven (x / u)) - x / u\<bar>"
    using u by (simp add: abs_mult)
  also have "\<dots> \<le> u * (1 / 2)"
    using u roundTiesToEven_near [of "x / u"] by (simp only: mult_le_cancel_left_pos)
  finally show ?thesis by (simp add: u_def)
qed

lemma pow2_powi: "pow2 e = 2 powi e"
  by (simp add: pow2_def power_int_def field_simps)

lemma pow2_add: "pow2 (a + b) = pow2 a * pow2 b"
  by (simp add: pow2_powi power_int_add)

lemma roundTiesToEven_ge_int:
  assumes "of_int n \<le> y"
  shows "n \<le> roundTiesToEven y"
proof -
  have "n \<le> \<lfloor>y\<rfloor>" using assms by (simp add: le_floor_iff)
  then show ?thesis by (auto simp: roundTiesToEven_def Let_def)
qed

lemma toDouble_significand:
  assumes "0 < x"
  shows "toDouble x = pow2 (binade x - 52) * of_int (roundTiesToEven (x / pow2 (binade x - 52)))"
    and "2 ^ 52 \<le> roundTiesToEven (x / pow2 (binade x - 52))"
    and "roundTiesToEven (x / pow2 (binade x - 52)) \<le> 2 ^ 53"
proof -
  define u where "u = pow2 (binade x - 52)"
  have u: "0 < u" by (simp add: u_def pow2_pos)
  have p: "pow2 52 = 2 ^ 52" "pow2 53 = 2 ^ 53"
    by (simp_all add: pow2_def)
  have lo: "pow2 (binade x) = u * 2 ^ 52"
    using pow2_add [of "binade x - 52" 52] by (simp add: u_def p)
  have "binade x - 52 + 53 = binade x + 1" by simp
  then have hi: "pow2 (binade x + 1) = u * 2 ^ 53"
    using pow2_add [of "binade x - 52" 53] by (simp only: u_def p)
  have "u * 2 ^ 52 \<le> x" "x < u * 2 ^ 53"
    using binade_bounds [OF assms] by (simp_all add: lo hi)
  then have b: "of_int (2 ^ 52) \<le> x / u" "x / u \<le> of_int (2 ^ 53)"
    using u by (simp_all add: pos_le_divide_eq pos_divide_le_eq mult.commute)
  show "2 ^ 52 \<le> roundTiesToEven (x / pow2 (binade x - 52))"
    unfolding u_def [symmetric] using b(1) by (rule roundTiesToEven_ge_int)
  show "roundTiesToEven (x / pow2 (binade x - 52)) \<le> 2 ^ 53"
    unfolding u_def [symmetric] using b(2) by (rule roundTiesToEven_le_int)
  show "toDouble x = pow2 (binade x - 52) * of_int (roundTiesToEven (x / pow2 (binade x - 52)))"
    using assms by (simp add: toDouble_def Let_def)
qed

subsection \<open>The summary\<close>

lemma percent_bounds:
  assumes "p \<le> n" and "n \<noteq> 0"
  shows "0 \<le> mathRound (toDouble (toDouble (of_nat p / of_nat n) * 100))"
    and "mathRound (toDouble (toDouble (of_nat p / of_nat n) * 100)) \<le> 100"
proof -
  have q: "(0::rat) \<le> of_nat p / of_nat n" "(of_nat p / of_nat n :: rat) \<le> 1"
    using assms by simp_all
  have a: "0 \<le> toDouble (of_nat p / of_nat n)" "toDouble (of_nat p / of_nat n) \<le> 1"
    using q by (simp_all add: toDouble_nonneg toDouble_le_1)
  then have b: "0 \<le> toDouble (toDouble (of_nat p / of_nat n) * 100)"
    "toDouble (toDouble (of_nat p / of_nat n) * 100) \<le> 100"
    by (simp_all add: toDouble_nonneg toDouble_le_100)
  show "0 \<le> mathRound (toDouble (toDouble (of_nat p / of_nat n) * 100))"
    using b(1) by (simp add: mathRound_def)
  show "mathRound (toDouble (toDouble (of_nat p / of_nat n) * 100)) \<le> 100"
    using b(2) by (simp add: mathRound_def floor_le_iff)
qed

lemma increment_same: "counts k = Some n \<Longrightarrow> increment counts k k = Some (n + 1)"
  by (simp add: increment_def)

lemma increment_other: "j \<noteq> k \<Longrightarrow> increment counts j k = counts k"
  by (simp add: increment_def split: option.splits)

lemma fold_countCase_status:
  "sc k = Some n \<Longrightarrow>
   fst (fold countCase cs (sc, pc)) k = Some (n + countStatus k cs)"
proof (induction cs arbitrary: sc pc n)
  case Nil
  then show ?case by (simp add: countStatus_def)
next
  case (Cons c cs)
  show ?case
  proof (cases "status c = k")
    case True
    then have "increment sc (status c) k = Some (n + 1)"
      using Cons.prems by (simp add: increment_same)
    then show ?thesis
      using True Cons.IH [of "increment sc (status c)" "n + 1"]
      by (simp add: countCase_def countStatus_def)
  next
    case False
    then have "increment sc (status c) k = Some n"
      using Cons.prems by (simp add: increment_other)
    then show ?thesis
      using False Cons.IH [of "increment sc (status c)" n]
      by (simp add: countCase_def countStatus_def)
  qed
qed


lemma statusCount_summarize:
  assumes "k \<in> set STATUS_OPTIONS"
  shows "getCount (statusCount (summarize cs)) k = countStatus k cs"
proof -
  have "fold (\<lambda>cur acc. acc(cur \<mapsto> 0)) STATUS_OPTIONS Map.empty k = Some (0::nat)"
    using assms by (auto simp: STATUS_OPTIONS_def)
  then show ?thesis
    using fold_countCase_status [of _ k 0 cs]
    by (simp add: summarize_def Let_def getCount_def)
qed


lemma status_options:
  "notRun \<in> set STATUS_OPTIONS" "passed \<in> set STATUS_OPTIONS" "failed \<in> set STATUS_OPTIONS"
  "blocked \<in> set STATUS_OPTIONS" "skipped \<in> set STATUS_OPTIONS"
  by (simp_all add: STATUS_OPTIONS_def)

lemma total_summarize: "total' (summarize cs) = length cs"
  by (simp add: summarize_def Let_def)

lemma executed_summarize:
  "executed (summarize cs) = int (length cs) - int (countStatus notRun cs)"
  using statusCount_summarize [OF status_options(1), of cs]
  by (simp add: summarize_def Let_def)

lemma passRate_summarize:
  "passRate (summarize cs)
     = (if cs = [] then 0
        else mathRound (toDouble
               (toDouble (of_nat (countStatus passed cs) / of_nat (length cs)) * 100)))"
  using statusCount_summarize [OF status_options(2), of cs]
  by (simp add: summarize_def Let_def)

lemma countStatus_le: "countStatus k cs \<le> length cs"
  by (simp add: countStatus_def)

lemma passRate_bounds: "0 \<le> passRate (summarize cs) \<and> passRate (summarize cs) \<le> 100"
  using percent_bounds [of "countStatus passed cs" "length cs"] countStatus_le [of passed cs]
  by (simp add: passRate_summarize)

lemma one_fifth_is_20: "mathRound (toDouble (toDouble (1 / 5) * 100)) = 20"
  by code_simp

text \<open>
  The double rounding shows: 29 passed cases of 200 give 14, since the product is the
  double just below 14.5, where exact arithmetic would round 14.5 up to 15.
\<close>

lemma passRate_29_of_200:
  "toDouble (toDouble (29 / 200) * 100) = 8162774324609023 / 562949953421312
   \<and> mathRound (toDouble (toDouble (29 / 200) * 100)) = 14
   \<and> mathRound (29 / 200 * 100) = 15"
  by code_simp

lemma countStatus_map:
  "countStatus k cs = length (filter (\<lambda>s. s = k) (map status cs))"
  by (simp add: countStatus_def filter_map comp_def)

text \<open>
  C3. The total is the number of cases, the executed count is the total minus the number
  of cases not run, the pass rate lies between 0 and 100 and is 0 for the empty
  collection; cases with the statuses passed, failed, blocked, not run, not run give the
  total 5, the executed count 3 and the pass rate 20.
\<close>

theorem C3_summary_equations:
  "total' (summarize cs) = length cs
   \<and> executed (summarize cs)
       = int (total' (summarize cs)) - int (length (filter (\<lambda>c. status c = notRun) cs))
   \<and> 0 \<le> passRate (summarize cs) \<and> passRate (summarize cs) \<le> 100
   \<and> (total' (summarize cs) = 0 \<longrightarrow> passRate (summarize cs) = 0)
   \<and> (map status cs = [passed, failed, blocked, notRun, notRun] \<longrightarrow>
        total' (summarize cs) = 5 \<and> executed (summarize cs) = 3
        \<and> passRate (summarize cs) = 20)"
proof -
  have scenario: "total' (summarize cs) = 5 \<and> executed (summarize cs) = 3
      \<and> passRate (summarize cs) = 20"
    if m: "map status cs = [passed, failed, blocked, notRun, notRun]"
  proof -
    have "length (map status cs) = 5" by (simp add: m)
    then have l: "length cs = 5" by simp
    have n: "countStatus notRun cs = 2" "countStatus passed cs = 1"
      by (simp_all add: countStatus_map m notRun_def passed_def failed_def blocked_def)
    have "cs \<noteq> []" using l by auto
    then show ?thesis
      by (simp add: total_summarize executed_summarize passRate_summarize l n one_fifth_is_20)
  qed
  have a: "total' (summarize cs) = length cs"
    by (rule total_summarize)
  have b: "executed (summarize cs)
      = int (total' (summarize cs)) - int (length (filter (\<lambda>c. status c = notRun) cs))"
    by (simp add: executed_summarize total_summarize countStatus_def)
  have c: "total' (summarize cs) = 0 \<longrightarrow> passRate (summarize cs) = 0"
    by (simp add: total_summarize passRate_summarize)
  show ?thesis
    using a b c scenario passRate_bounds [of cs] by blast
qed

text \<open>Five cases with the statuses of the scenario, and the empty collection.\<close>

theorem C3_summary_equations_witness:
  "map status [exampleCase (js ''TC-1'') passed [] [], exampleCase (js ''TC-2'') failed [] [],
       exampleCase (js ''TC-3'') blocked [] [], exampleCase (js ''TC-4'') notRun [] [],
       exampleCase (js ''TC-5'') notRun [] []]
     = [passed, failed, blocked, notRun, notRun]
   \<and> total' (summarize [exampleCase (js ''TC-1'') passed [] [],
         exampleCase (js ''TC-2'') failed [] [], exampleCase (js ''TC-3'') blocked [] [],
         exampleCase (js ''TC-4'') notRun [] [], exampleCase (js ''TC-5'') notRun [] []]) = 5
   \<and> executed (summarize [exampleCase (js ''TC-1'') passed [] [],
         exampleCase (js ''TC-2'') failed [] [], exampleCase (js ''TC-3'') blocked [] [],
         exampleCase (js ''TC-4'') notRun [] [], exampleCase (js ''TC-5'') notRun [] []]) = 3
   \<and> passRate (summarize [exampleCase (js ''TC-1'') passed [] [],
         exampleCase (js ''TC-2'') failed [] [], exampleCase (js ''TC-3'') blocked [] [],
         exampleCase (js ''TC-4'') notRun [] [], exampleCase (js ''TC-5'') notRun [] []]) = 20
   \<and> total' (summarize []) = 0 \<and> passRate (summarize []) = 0"
proof -
  have m: "map status [exampleCase (js ''TC-1'') passed [] [], exampleCase (js ''TC-2'') failed [] [],
       exampleCase (js ''TC-3'') blocked [] [], exampleCase (js ''TC-4'') notRun [] [],
       exampleCase (js ''TC-5'') notRun [] []]
     = [passed, failed, blocked, notRun, notRun]"
    by (simp add: exampleCase_def)
  have z: "total' (summarize []) = 0"
    by (simp add: summarize_def)
  show ?thesis
    using C3_summary_equations [of "[exampleCase (js ''TC-1'') passed [] [],
         exampleCase (js ''TC-2'') failed [] [], exampleCase (js ''TC-3'') blocked [] [],
         exampleCase (js ''TC-4'') notRun [] [], exampleCase (js ''TC-5'') notRun [] []]"]
      C3_summary_equations [of "[]"] m z
    by simp
qed

section \<open>Structure of the report\<close>






end
